theory Spec2Isabelle
  imports Complex_Main
begin

section \<open>Python values: errors and binary64 floats\<close>

text \<open>
  The script \<^verbatim>\<open>stellar_graph.py\<close> computes with Python integers (unbounded, type
  \<^typ>\<open>int\<close>) and Python floats (IEEE 754 binary64). A float is modelled by the exact
  rational it denotes, or one of the three special values; every float operation is the
  exact operation followed by rounding to the nearest binary64 value, ties to even.
  The sign of zero is not represented. An exception is a value of \<open>py_error\<close>.
\<close>

datatype py_error = OverflowError | ZeroDivisionError | ValueError | KeyError

datatype double = Finite rat | PosInf | NegInf | NaN

definition bind :: "py_error + 'a \<Rightarrow> ('a \<Rightarrow> py_error + 'b) \<Rightarrow> py_error + 'b" where
  "bind r f = (case r of Inl e \<Rightarrow> Inl e | Inr v \<Rightarrow> f v)"

text \<open>
  \<open>ndigits b a\<close> is the number of base-\<open>b\<close> digits of a positive integer, and
  \<open>ilog b x\<close> the integer part of the base-\<open>b\<close> logarithm of a positive rational.
\<close>

function ndigits :: "int \<Rightarrow> int \<Rightarrow> int" where
  "ndigits b a = (if 0 < a \<and> 1 < b then ndigits b (a div b) + 1 else 0)"
  by pat_completeness auto
termination
  by (relation "measure (\<lambda>(b, a). nat a)") (auto simp: int_div_less_self)

definition ilog :: "int \<Rightarrow> rat \<Rightarrow> int" where
  "ilog b x = (let (p, q) = quotient_of x; d = ndigits b p - ndigits b q
               in if of_int b powi d \<le> x then d else d - 1)"

definition round_even :: "rat \<Rightarrow> int" where
  "round_even y = (let f = \<lfloor>y\<rfloor>; r = y - of_int f
                   in if r < 1 / 2 then f else if 1 / 2 < r then f + 1
                      else if even f then f else f + 1)"

text \<open>
  Rounding to binary64: 53 significant bits, least exponent \<open>-1022\<close> (below it the spacing
  stays \<open>2 powi - 1074\<close>, the subnormal range), overflow to infinity from \<open>2 ^ 1024\<close> on.
\<close>

definition rnd :: "rat \<Rightarrow> double" where
  "rnd x = (if x = 0 then Finite 0 else
     let e = max (ilog 2 \<bar>x\<bar>) (- 1022) - 52;
         y = of_int (round_even (x / 2 powi e)) * 2 powi e
     in if 2 ^ 1024 \<le> y then PosInf else if y \<le> - (2 ^ 1024) then NegInf else Finite y)"

fun dsign :: "double \<Rightarrow> rat" where
  "dsign (Finite a) = sgn a"
| "dsign PosInf = 1"
| "dsign NegInf = - 1"
| "dsign NaN = 0"

definition inf_of_sign :: "rat \<Rightarrow> double" where
  "inf_of_sign s = (if 0 < s then PosInf else if s < 0 then NegInf else NaN)"

text \<open>Float multiplication never raises: an overflowing product is an infinity.\<close>

fun fmul :: "double \<Rightarrow> double \<Rightarrow> double" where
  "fmul (Finite a) (Finite b) = rnd (a * b)"
| "fmul NaN y = NaN"
| "fmul x NaN = NaN"
| "fmul x y = inf_of_sign (dsign x * dsign y)"


text \<open>IEEE division by a divisor that is not zero.\<close>

fun ieee_div :: "double \<Rightarrow> double \<Rightarrow> double" where
  "ieee_div (Finite a) (Finite b) = rnd (a / b)"
| "ieee_div NaN y = NaN"
| "ieee_div x NaN = NaN"
| "ieee_div (Finite a) y = Finite 0"
| "ieee_div x (Finite b) = inf_of_sign (dsign x * sgn b)"
| "ieee_div x y = NaN"

text \<open>Python's \<^verbatim>\<open>x / y\<close> on floats raises on a zero divisor.\<close>

definition fdiv :: "double \<Rightarrow> double \<Rightarrow> py_error + double" where
  "fdiv x y = (if y = Finite 0 then Inl ZeroDivisionError else Inr (ieee_div x y))"

text \<open>
  Converting an integer to a float (as \<^verbatim>\<open>float * int\<close> does with its integer operand)
  rounds correctly and raises OverflowError when the integer is too large.
\<close>

definition float_of_int :: "int \<Rightarrow> py_error + double" where
  "float_of_int n = (case rnd (of_int n) of Finite y \<Rightarrow> Inr (Finite y) | _ \<Rightarrow> Inl OverflowError)"


text \<open>
  \<^verbatim>\<open>x ** n\<close> for a float \<open>x\<close> and a literal exponent \<open>n\<close>: the C library's \<^verbatim>\<open>pow\<close>, taken
  as correctly rounded; Python raises OverflowError when the result is out of range.
\<close>

fun float_pow :: "double \<Rightarrow> nat \<Rightarrow> py_error + double" where
  "float_pow (Finite a) n =
     (case rnd (a ^ n) of Finite y \<Rightarrow> Inr (Finite y) | _ \<Rightarrow> Inl OverflowError)"
| "float_pow NaN n = Inr (if n = 0 then Finite 1 else NaN)"
| "float_pow PosInf n = Inr (if n = 0 then Finite 1 else PosInf)"
| "float_pow NegInf n = Inr (if n = 0 then Finite 1 else if even n then PosInf else NegInf)"

text \<open>A float literal denotes the binary64 value nearest to its decimal value.\<close>

definition float_lit :: "rat \<Rightarrow> double" where
  "float_lit x = rnd x"

section \<open>Constants of the script\<close>

definition T_min :: int where "T_min = 3000"
definition T_max :: int where "T_max = 12000"
definition T_init :: int where "T_init = 5778"

definition sigma :: double where "sigma = float_lit (567 / 10 ^ 10)"
definition R :: double where "R = float_lit 696000000"
definition np_pi :: double where "np_pi = float_lit (3141592653589793 / 10 ^ 15)"

section \<open>The Stefan-Boltzmann luminosity function\<close>

text \<open>
  \<^verbatim>\<open>def luminosity(T): return 4 * np.pi * R**2 * sigma * T**4\<close>, evaluated left to
  right, for the integer \<open>T\<close> that the session state holds. \<open>T**4\<close> is an exact integer
  power; it is converted to a float when it is multiplied with the float on its left.
\<close>

definition luminosity :: "int \<Rightarrow> py_error + double" where
  "luminosity T =
     bind (float_of_int 4) (\<lambda>four.
     bind (float_pow R 2) (\<lambda>r2.
     bind (float_of_int (T ^ 4)) (\<lambda>t4.
       Inr (fmul (fmul (fmul (fmul four np_pi) r2) sigma) t4))))"

text \<open>
  The script calls the same function on the array of sample temperatures,
  \<^verbatim>\<open>L_vals = luminosity(T_vals)\<close>, whose elements are floats and need not be integers.
  The arithmetic is then elementwise float arithmetic: \<^verbatim>\<open>T_vals**4\<close> is the float power
  (the C library's \<^verbatim>\<open>pow\<close>, taken as correctly rounded), which raises nothing and gives
  an infinity when the result is out of range, and the product with the float on its
  left is a float multiplication.
\<close>

fun np_power :: "double \<Rightarrow> nat \<Rightarrow> double" where
  "np_power (Finite a) n = rnd (a ^ n)"
| "np_power NaN n = (if n = 0 then Finite 1 else NaN)"
| "np_power PosInf n = (if n = 0 then Finite 1 else PosInf)"
| "np_power NegInf n = (if n = 0 then Finite 1 else if even n then PosInf else NegInf)"

definition luminosity_float :: "double \<Rightarrow> py_error + double" where
  "luminosity_float T =
     bind (float_of_int 4) (\<lambda>four.
     bind (float_pow R 2) (\<lambda>r2.
       Inr (fmul (fmul (fmul (fmul four np_pi) r2) sigma) (np_power T 4))))"

text \<open>
  The argument of \<^verbatim>\<open>luminosity\<close> is thus an integer or a float. A float is well formed
  when its value is a binary64 value; \<open>num_value\<close> is the number an argument denotes.
\<close>

datatype pynum = PyInt int | PyFloat double

fun luminosity_num :: "pynum \<Rightarrow> py_error + double" where
  "luminosity_num (PyInt T) = luminosity T"
| "luminosity_num (PyFloat T) = luminosity_float T"

definition is_double :: "rat \<Rightarrow> bool" where
  "is_double x \<longleftrightarrow> rnd x = Finite x"

fun well_formed :: "pynum \<Rightarrow> bool" where
  "well_formed (PyInt n) = True"
| "well_formed (PyFloat (Finite x)) = is_double x"
| "well_formed (PyFloat d) = True"

fun num_value :: "pynum \<Rightarrow> rat option" where
  "num_value (PyInt n) = Some (of_int n)"
| "num_value (PyFloat (Finite x)) = Some x"
| "num_value (PyFloat d) = None"

section \<open>Colour of the selected temperature\<close>



section \<open>Formatting\<close>

definition digit_char :: "int \<Rightarrow> char" where
  "digit_char d = char_of (48 + d)"

function digits10 :: "int \<Rightarrow> string" where
  "digits10 n = (if n < 10 then [digit_char n]
                 else digits10 (n div 10) @ [digit_char (n mod 10)])"
  by pat_completeness auto
termination
  by (relation "measure nat") (auto simp: int_div_less_self)

text \<open>
  \<^verbatim>\<open>"{:.2e}".format(x)\<close>: three significant decimal digits of the exact value of the
  float, rounded half to even, and a signed decimal exponent of at least two digits.
\<close>

definition sci_digits :: "rat \<Rightarrow> int \<times> int" where
  "sci_digits x = (let e = ilog 10 x; m = round_even (x / 10 powi (e - 2))
                   in if m = 1000 then (100, e + 1) else (m, e))"

definition mant_str :: "int \<Rightarrow> string" where
  "mant_str m = [digit_char (m div 100), CHR ''.'', digit_char (m div 10 mod 10),
                 digit_char (m mod 10)]"

definition exp_digits :: "int \<Rightarrow> string" where
  "exp_digits e = (if \<bar>e\<bar> < 10 then ''0'' else []) @ digits10 \<bar>e\<bar>"

definition exp_str :: "int \<Rightarrow> string" where
  "exp_str e = (if e < 0 then ''-'' else ''+'') @ exp_digits e"

fun format_e2 :: "double \<Rightarrow> string" where
  "format_e2 NaN = ''nan''"
| "format_e2 PosInf = ''inf''"
| "format_e2 NegInf = ''-inf''"
| "format_e2 (Finite x) =
     (if x = 0 then ''0.00e+00''
      else let (m, e) = sci_digits \<bar>x\<bar>
           in (if x < 0 then ''-'' else []) @ mant_str m @ ''e'' @ exp_str e)"

text \<open>The format \<^verbatim>\<open>1.1f\<close> of the f-string: fixed point with one decimal.\<close>

fun format_f1 :: "double \<Rightarrow> string" where
  "format_f1 NaN = ''nan''"
| "format_f1 PosInf = ''inf''"
| "format_f1 NegInf = ''-inf''"
| "format_f1 (Finite x) =
     (let n = round_even (\<bar>x\<bar> * 10)
      in (if x < 0 then ''-'' else []) @ digits10 (n div 10) @ ''.'' @ [digit_char (n mod 10)])"

subsection \<open>String operations\<close>

text \<open>\<^verbatim>\<open>sub in s\<close>.\<close>

fun py_in :: "string \<Rightarrow> string \<Rightarrow> bool" where
  "py_in sub [] = (sub = [])"
| "py_in sub (c # cs) = (take (length sub) (c # cs) = sub \<or> py_in sub cs)"

text \<open>
  \<^verbatim>\<open>s.split(sep)\<close> cuts at every occurrence of the separator, from the left, and raises
  ValueError on an empty separator. \<open>cur\<close> is the piece read so far.
\<close>

function split_from :: "string \<Rightarrow> string \<Rightarrow> string \<Rightarrow> string list" where
  "split_from sep cur s =
     (if s = [] then [cur]
      else if sep \<noteq> [] \<and> take (length sep) s = sep
        then cur # split_from sep [] (drop (length sep) s)
      else split_from sep (cur @ [hd s]) (tl s))"
  by pat_completeness auto
termination
  by (relation "measure (\<lambda>(sep, cur, s). length s)") auto

definition py_split :: "string \<Rightarrow> string \<Rightarrow> py_error + string list" where
  "py_split s sep = (if sep = [] then Inl ValueError else Inr (split_from sep [] s))"

text \<open>\<^verbatim>\<open>base, exponent = parts\<close> raises ValueError unless there are exactly two parts.\<close>

definition unpack2 :: "string list \<Rightarrow> py_error + string \<times> string" where
  "unpack2 parts = (case parts of [a, b] \<Rightarrow> Inr (a, b) | _ \<Rightarrow> Inl ValueError)"

text \<open>
  The splitting of \<^verbatim>\<open>formatted_L\<close> into \<^verbatim>\<open>base\<close> and \<^verbatim>\<open>exponent\<close>:
  \<^verbatim>\<open>
  if 'e+' in formatted_L:
      base, exponent = formatted_L.split('e+')
  elif 'e-' in formatted_L:
      base, exponent = formatted_L.split('e-')
      exponent = '-' + exponent
  else:
      base = formatted_L
      exponent = '0'
  \<close>
\<close>

definition split_formatted :: "string \<Rightarrow> py_error + string \<times> string" where
  "split_formatted formatted_L =
     (if py_in ''e+'' formatted_L then bind (py_split formatted_L ''e+'') unpack2
      else if py_in ''e-'' formatted_L then
        bind (bind (py_split formatted_L ''e-'') unpack2)
          (\<lambda>(base, exponent). Inr (base, ''-'' @ exponent))
      else Inr (formatted_L, ''0''))"

text \<open>
  The text under the slider for the temperature \<open>T\<close>: the mantissa and the exponent shown
  in the first line, and the number shown in the second line,
  \<^verbatim>\<open>{L_current/3.83e26:1.1f}\<close>.
\<close>

definition render_text :: "int \<Rightarrow> py_error + string \<times> string \<times> string" where
  "render_text T =
     bind (luminosity T) (\<lambda>L_current.
     bind (split_formatted (format_e2 L_current)) (\<lambda>(base, exponent).
     bind (fdiv L_current (float_lit (383 * 10 ^ 24))) (\<lambda>ratio.
       Inr (base, exponent, format_f1 ratio))))"

section \<open>Session state and the slider\<close>

text \<open>
  \<^verbatim>\<open>st.session_state\<close> is a dictionary; the script uses the key \<^verbatim>\<open>T_current\<close> only.
  Every run of the script starts with
  \<^verbatim>\<open>if 'T_current' not in st.session_state: st.session_state.T_current = T_init\<close>.
\<close>

type_synonym session_state = "string \<rightharpoonup> int"

definition init_session :: "session_state \<Rightarrow> session_state" where
  "init_session st =
     (if st ''T_current'' = None then st(''T_current'' \<mapsto> T_init) else st)"

definition read_T :: "session_state \<Rightarrow> py_error + int" where
  "read_T st = (case st ''T_current'' of None \<Rightarrow> Inl KeyError | Some T \<Rightarrow> Inr T)"

text \<open>
  The slider is declared with \<^verbatim>\<open>min_value=T_min, max_value=T_max, step=10\<close> and
  \<^verbatim>\<open>key='T_current'\<close>. The widget belongs to the UI library; its contract is that a user
  interaction stores, under the key, a value \<open>min_value + k * step\<close> that is at most
  \<open>max_value\<close>, and reruns the script.
\<close>

definition slider_step :: int where "slider_step = 10"

definition slider_value :: "int \<Rightarrow> bool" where
  "slider_value v \<longleftrightarrow> T_min \<le> v \<and> v \<le> T_max \<and> (v - T_min) mod slider_step = 0"

definition slider_set :: "int \<Rightarrow> session_state \<Rightarrow> session_state" where
  "slider_set v st = st(''T_current'' \<mapsto> v)"

text \<open>The session states at the point where the script reads \<^verbatim>\<open>T_current\<close>.\<close>

inductive reachable :: "session_state \<Rightarrow> bool" where
  start: "reachable (init_session Map.empty)"
| move: "reachable st \<Longrightarrow> slider_value v \<Longrightarrow> reachable (init_session (slider_set v st))"

section \<open>Properties of the float model\<close>

declare ndigits.simps [simp del]

lemma ndigits_pos: "0 < a \<Longrightarrow> 1 < b \<Longrightarrow> 1 \<le> ndigits b a"
proof -
  assume a: "0 < a" "1 < b"
  have "0 \<le> ndigits b c" for c
    by (induction b c rule: ndigits.induct) (subst ndigits.simps, simp)
  then have "0 \<le> ndigits b (a div b)" .
  with a show ?thesis by (subst ndigits.simps) simp
qed

lemma ndigits_bounds:
  "0 < a \<Longrightarrow> 1 < b \<Longrightarrow> b ^ nat (ndigits b a - 1) \<le> a \<and> a < b ^ nat (ndigits b a)"
proof (induction b a rule: ndigits.induct)
  case (1 b a)
  have eq: "ndigits b a = ndigits b (a div b) + 1"
    using "1.prems" by (subst ndigits.simps) simp
  show ?case
  proof (cases "a < b")
    case True
    then have "a div b = 0" using "1.prems" by simp
    then have "ndigits b a = 1" using eq by (simp add: ndigits.simps[of b 0])
    then show ?thesis using True "1.prems" by simp
  next
    case False
    then have pos: "0 < a div b" using "1.prems"
      by (simp add: pos_imp_zdiv_pos_iff)
    define n where "n = ndigits b (a div b)"
    have n1: "1 \<le> n" unfolding n_def using pos "1.prems" by (simp add: ndigits_pos)
    have ih: "b ^ nat (n - 1) \<le> a div b" "a div b < b ^ nat n"
      using "1.IH" "1.prems" pos unfolding n_def by auto
    have nn: "nat n = Suc (nat (n - 1))" using n1 by simp
    define q where "q = a div b"
    define r where "r = a mod b"
    have ab: "a = b * q + r" unfolding q_def r_def by simp
    have r0: "0 \<le> r" "r < b" unfolding r_def using "1.prems" by simp_all
    have lo: "b ^ nat n \<le> a"
    proof -
      have "b ^ nat n = b * b ^ nat (n - 1)" by (subst nn) simp
      also have "\<dots> \<le> b * q" using ih(1) "1.prems" unfolding q_def by simp
      also have "\<dots> \<le> a" using ab r0 by simp
      finally show ?thesis .
    qed
    have hi: "a < b ^ nat (n + 1)"
    proof -
      have "q + 1 \<le> b ^ nat n" using ih(2) unfolding q_def by simp
      then have "b * (q + 1) \<le> b * b ^ nat n" using "1.prems" by simp
      moreover have "a < b * (q + 1)" using ab r0 by (simp add: algebra_simps)
      moreover have "nat (n + 1) = Suc (nat n)" using n1 by simp
      ultimately show ?thesis by simp
    qed
    show ?thesis using lo hi eq n_def by simp
  qed
qed

lemma ilog_bounds:
  assumes "1 < b" "0 < x"
  shows "of_int b powi (ilog b x) \<le> x \<and> x < of_int b powi (ilog b x + 1)"
proof -
  obtain p q where pq: "quotient_of x = (p, q)" by (cases "quotient_of x")
  have q0: "0 < q" using pq by (rule quotient_of_denom_pos)
  have x: "x = of_int p / of_int q" using pq by (rule quotient_of_div)
  have p0: "0 < p" using assms(2) q0 unfolding x by (simp add: zero_less_divide_iff)
  define B :: rat where "B = of_int b"
  have B1: "1 < B" unfolding B_def using assms(1) by simp
  have B0: "0 < B" "B \<noteq> 0" using B1 by simp_all
  define dp where "dp = ndigits b p"
  define dq where "dq = ndigits b q"
  have dp1: "1 \<le> dp" unfolding dp_def using p0 assms(1) by (rule ndigits_pos)
  have dq1: "1 \<le> dq" unfolding dq_def using q0 assms(1) by (rule ndigits_pos)
  have bp: "b ^ nat (dp - 1) \<le> p" "p < b ^ nat dp"
    unfolding dp_def using ndigits_bounds[OF p0 assms(1)] by simp_all
  have bq: "b ^ nat (dq - 1) \<le> q" "q < b ^ nat dq"
    unfolding dq_def using ndigits_bounds[OF q0 assms(1)] by simp_all
  have P1: "B powi (dp - 1) \<le> of_int p"
  proof -
    have "(of_int (b ^ nat (dp - 1)) :: rat) \<le> of_int p" using bp(1) by (simp only: of_int_le_iff)
    then show ?thesis using dp1 by (simp add: B_def power_int_nonneg_exp)
  qed
  have P2: "of_int p < B powi dp"
  proof -
    have "(of_int p :: rat) < of_int (b ^ nat dp)" using bp(2) by (simp only: of_int_less_iff)
    then show ?thesis using dp1 by (simp add: B_def power_int_nonneg_exp)
  qed
  have Q1: "B powi (dq - 1) \<le> of_int q"
  proof -
    have "(of_int (b ^ nat (dq - 1)) :: rat) \<le> of_int q" using bq(1) by (simp only: of_int_le_iff)
    then show ?thesis using dq1 by (simp add: B_def power_int_nonneg_exp)
  qed
  have Q2: "of_int q < B powi dq"
  proof -
    have "(of_int q :: rat) < of_int (b ^ nat dq)" using bq(2) by (simp only: of_int_less_iff)
    then show ?thesis using dq1 by (simp add: B_def power_int_nonneg_exp)
  qed
  have qr: "(0::rat) < of_int q" using q0 by simp
  have lo: "B powi (dp - dq - 1) < x"
  proof -
    have "B powi (dp - dq - 1) = B powi (dp - 1) / B powi dq"
      using B0 by (simp add: power_int_diff[symmetric] algebra_simps)
    also have "\<dots> \<le> of_int p / B powi dq"
      using P1 B0 by (simp add: divide_right_mono)
    also have "\<dots> < of_int p / of_int q"
      using Q2 qr p0 by (simp add: divide_strict_left_mono)
    finally show ?thesis unfolding x .
  qed
  have hi: "x < B powi (dp - dq + 1)"
  proof -
    have "of_int p / of_int q < B powi dp / of_int q"
      using P2 qr by (simp add: divide_strict_right_mono)
    also have "\<dots> \<le> B powi dp / B powi (dq - 1)"
      using Q1 B0 qr by (intro divide_left_mono) simp_all
    also have "\<dots> = B powi (dp - dq + 1)"
      using B0 by (simp add: power_int_diff[symmetric] algebra_simps)
    finally show ?thesis unfolding x .
  qed
  have il: "ilog b x = (if B powi (dp - dq) \<le> x then dp - dq else dp - dq - 1)"
    unfolding ilog_def pq B_def dp_def dq_def by (simp add: Let_def)
  show ?thesis
  proof (cases "B powi (dp - dq) \<le> x")
    case True
    then show ?thesis using hi il B_def by simp
  next
    case False
    then show ?thesis using lo il B_def by simp
  qed
qed

lemma ilog_unique:
  assumes "1 < b" "of_int b powi k \<le> x" "x < of_int b powi (k + 1)"
  shows "ilog b x = k"
proof -
  define B :: rat where "B = of_int b"
  have B1: "1 < B" unfolding B_def using assms(1) by simp
  have x0: "0 < x" using assms(2) B1 
    by (metis B_def less_le_trans zero_less_power_int zero_less_one less_trans)
  define j where "j = ilog b x"
  have j: "B powi j \<le> x" "x < B powi (j + 1)"
    using ilog_bounds[OF assms(1) x0] unfolding j_def B_def by simp_all
  have "B powi k < B powi (j + 1)" using assms(2) j(2) unfolding B_def by simp
  then have 1: "k < j + 1" using B1 power_int_increasing[of "j + 1" k B] by (cases "k < j + 1") simp_all
  have "B powi j < B powi (k + 1)" using assms(3) j(1) unfolding B_def by simp
  then have 2: "j < k + 1" using B1 power_int_increasing[of "k + 1" j B] by (cases "j < k + 1") simp_all
  show ?thesis using 1 2 unfolding j_def by simp
qed

lemma round_even_error: "\<bar>of_int (round_even y) - y\<bar> \<le> 1 / 2"
proof -
  define f where "f = \<lfloor>y\<rfloor>"
  have f: "of_int f \<le> y" "y < of_int f + 1" unfolding f_def by linarith+
  have "round_even y = f \<and> y - of_int f \<le> 1 / 2 \<or> round_even y = f + 1 \<and> 1 / 2 \<le> y - of_int f"
    unfolding round_even_def f_def[symmetric] by (auto simp: Let_def)
  then show ?thesis using f by auto
qed

lemma round_even_of_int: "round_even (of_int n) = n"
  by (simp add: round_even_def)

lemma round_even_mono: "y \<le> z \<Longrightarrow> round_even y \<le> round_even z"
proof -
  assume yz: "y \<le> z"
  define f where "f = \<lfloor>y\<rfloor>"
  define g where "g = \<lfloor>z\<rfloor>"
  have fg: "f \<le> g" unfolding f_def g_def using yz by (rule floor_mono)
  have f: "of_int f \<le> y" "y < of_int f + 1" unfolding f_def by linarith+
  have g: "of_int g \<le> z" "z < of_int g + 1" unfolding g_def by linarith+
  show ?thesis
  proof (cases "f = g")
    case True
    have "y - of_int f \<le> z - of_int g" using yz True by simp
    then show ?thesis
      unfolding round_even_def f_def[symmetric] g_def[symmetric] True
      by (auto simp: Let_def)
  next
    case False
    then have lt: "f + 1 \<le> g" using fg by simp
    have 1: "round_even y \<le> f + 1"
      unfolding round_even_def f_def[symmetric] by (auto simp: Let_def)
    have 2: "g \<le> round_even z"
      unfolding round_even_def g_def[symmetric] by (auto simp: Let_def)
    show ?thesis using 1 2 lt by linarith
  qed
qed

lemma rnd_eval:
  assumes lo: "2 powi k \<le> x" and hi: "x < 2 powi (k + 1)"
    and k1: "- 1022 \<le> k" and k2: "k \<le> 1022"
  shows "rnd x = Finite (of_int (round_even (x / 2 powi (k - 52))) * 2 powi (k - 52))"
    and "\<bar>of_int (round_even (x / 2 powi (k - 52))) * 2 powi (k - 52) - x\<bar> \<le> 2 powi (k - 53)"
proof -
  have x0: "0 < x" using lo by (rule less_le_trans[rotated]) simp
  have il: "ilog 2 \<bar>x\<bar> = k"
    using lo hi x0 by (intro ilog_unique) simp_all
  define e where "e = k - 52"
  define n where "n = round_even (x / 2 powi e)"
  define y :: rat where "y = of_int n * 2 powi e"
  have e0: "(0::rat) < 2 powi e" by simp
  have "\<bar>of_int n - x / 2 powi e\<bar> \<le> 1 / 2" unfolding n_def by (rule round_even_error)
  then have "\<bar>of_int n - x / 2 powi e\<bar> * 2 powi e \<le> 1 / 2 * 2 powi e"
    using e0 by (intro mult_right_mono) simp_all
  moreover have "\<bar>of_int n - x / 2 powi e\<bar> * 2 powi e = \<bar>y - x\<bar>"
  proof -
    have "\<bar>of_int n - x / 2 powi e\<bar> * 2 powi e = \<bar>(of_int n - x / 2 powi e) * 2 powi e\<bar>"
      by (simp add: abs_mult)
    also have "(of_int n - x / 2 powi e) * 2 powi e = y - x"
      unfolding y_def by (simp add: algebra_simps)
    finally show ?thesis .
  qed
  moreover have "1 / 2 * (2::rat) powi e = 2 powi (k - 53)"
  proof -
    have "(2::rat) powi e = 2 powi ((k - 53) + 1)" unfolding e_def by simp
    also have "\<dots> = 2 powi (k - 53) * 2" by (subst power_int_add) simp_all
    finally show ?thesis by simp
  qed
  ultimately have err: "\<bar>y - x\<bar> \<le> 2 powi (k - 53)" by simp
  have le1: "(2::rat) powi (k - 53) < 2 powi k"
    by (intro power_int_strict_increasing) simp_all
  have le2: "(2::rat) powi (k + 1) \<le> 2 powi 1023"
    using k2 by (intro power_int_increasing) simp_all
  have le3: "(2::rat) powi k < 2 powi 1023"
    using k2 by (intro power_int_strict_increasing) simp_all
  have p: "(2::rat) powi 1023 + 2 powi 1023 = 2 ^ 1024" by simp
  have ylt: "y < 2 ^ 1024" using err le1 le2 le3 hi p by linarith
  have ygt: "0 < y" using err le1 lo by linarith
  have "rnd x = Finite y"
    using x0 ylt ygt il k1 unfolding rnd_def y_def n_def e_def
    by (simp add: Let_def max_def)
  then show "rnd x = Finite (of_int (round_even (x / 2 powi (k - 52))) * 2 powi (k - 52))"
    unfolding y_def n_def e_def .
  show "\<bar>of_int (round_even (x / 2 powi (k - 52))) * 2 powi (k - 52) - x\<bar> \<le> 2 powi (k - 53)"
    using err unfolding y_def n_def e_def .
qed

lemma rnd_normal:
  assumes "2 powi (- 1022) \<le> x" "x < 2 powi 1023"
  shows "\<exists>y. rnd x = Finite y \<and> \<bar>y - x\<bar> \<le> x / 2 ^ 53 \<and> 0 < y"
proof -
  have x0: "0 < x" using assms(1) by (rule less_le_trans[rotated]) simp
  define k where "k = ilog 2 x"
  have kb: "2 powi k \<le> x" "x < 2 powi (k + 1)"
    using ilog_bounds[of 2 x] x0 unfolding k_def by simp_all
  have "(2::rat) powi (- 1022) < 2 powi (k + 1)" using assms(1) kb(2) by simp
  then have k1: "- 1022 \<le> k"
    using power_int_increasing[of "k + 1" "- 1022" "2::rat"] by (cases "- 1022 \<le> k") simp_all
  have "(2::rat) powi k < 2 powi 1023" using assms(2) kb(1) by simp
  then have k2: "k \<le> 1022"
    using power_int_increasing[of "1023" "k" "2::rat"] by (cases "k \<le> 1022") simp_all
  define y where "y = of_int (round_even (x / 2 powi (k - 52))) * (2::rat) powi (k - 52)"
  have r: "rnd x = Finite y" and err: "\<bar>y - x\<bar> \<le> 2 powi (k - 53)"
    using rnd_eval[OF kb k1 k2] unfolding y_def by simp_all
  have "(2::rat) powi (k - 53) = 2 powi k / 2 ^ 53"
    by (subst power_int_diff) simp_all
  also have "\<dots> \<le> x / 2 ^ 53" using kb(1) by (simp add: divide_right_mono)
  finally have e2: "(2::rat) powi (k - 53) \<le> x / 2 ^ 53" .
  have "x / 2 ^ 53 < x" using x0 by simp
  then have "0 < y" using err e2 by linarith
  then show ?thesis using r err e2 by auto
qed

subsection \<open>The constants of the script as floats\<close>

lemma floor_rat_div_numeral: "\<lfloor>numeral a / numeral b :: rat\<rfloor> = numeral a div numeral b"
  by (metis floor_divide_of_int_eq of_int_numeral)

lemmas rnd_simps = round_even_def Let_def floor_rat_div_numeral

lemma four_eq: "float_of_int 4 = Inr (Finite 4)"
  unfolding float_of_int_def
  by (subst rnd_eval(1)[where k = 2]) (simp_all add: rnd_simps)

lemma R_eq: "R = Finite 696000000"
  unfolding R_def float_lit_def
  by (subst rnd_eval(1)[where k = 29]) (simp_all add: rnd_simps)

lemma R2_eq: "float_pow R 2 = Inr (Finite 484416000000000000)"
  unfolding R_eq float_pow.simps
  by (subst rnd_eval(1)[where k = 58]) (simp_all add: rnd_simps)

lemma np_pi_eq: "np_pi = Finite (884279719003555 / 2 ^ 48)"
  unfolding np_pi_def float_lit_def
  by (subst rnd_eval(1)[where k = 1]) (simp_all add: rnd_simps)

lemma sigma_eq: "sigma = Finite (2142065436629671 / 2 ^ 75)"
  unfolding sigma_def float_lit_def
  by (subst rnd_eval(1)[where k = "- 25"]) (simp_all add: rnd_simps)

lemma four_pi_eq: "fmul (Finite 4) np_pi = Finite (884279719003555 / 2 ^ 46)"
  unfolding np_pi_eq fmul.simps
  by (subst rnd_eval(1)[where k = 3]) (simp_all add: rnd_simps)

lemma four_pi_R2_eq:
  "fmul (Finite (884279719003555 / 2 ^ 46)) (Finite 484416000000000000) = Finite 6087350987525412864"
  unfolding fmul.simps
  by (subst rnd_eval(1)[where k = 62]) (simp_all add: rnd_simps)

lemma coeff_eq:
  "fmul (Finite 6087350987525412864) sigma = Finite (706872936433031 / 2048)"
  unfolding sigma_eq fmul.simps
  by (subst rnd_eval(1)[where k = 38]) (simp_all add: rnd_simps)

lemma luminosity_eq:
  "luminosity T = bind (float_of_int (T ^ 4)) (\<lambda>t4. Inr (fmul (Finite (706872936433031 / 2048)) t4))"
  unfolding luminosity_def four_eq R2_eq
  by (simp only: bind_def sum.case four_pi_eq four_pi_R2_eq coeff_eq)

subsection \<open>Bounds on \<open>pi\<close>\<close>

lemma arctan_series_bounds:
  fixes x :: real
  assumes "0 \<le> x" "x \<le> 1"
  shows "(\<Sum>i<2 * n. (- 1) ^ i * (1 / real (i * 2 + 1) * x ^ (i * 2 + 1))) \<le> arctan x"
    and "arctan x \<le> (\<Sum>i<2 * n + 1. (- 1) ^ i * (1 / real (i * 2 + 1) * x ^ (i * 2 + 1)))"
proof -
  define a where "a = (\<lambda>n. 1 / real (n * 2 + 1) * x ^ (n * 2 + 1))"
  have ax: "\<bar>x\<bar> \<le> 1" using assms by simp
  have z: "a \<longlonglongrightarrow> 0" unfolding a_def using ax by (rule zeroseq_arctan_series)
  have p: "0 \<le> a n" for n unfolding a_def using assms by simp
  have m: "a (Suc n) \<le> a n" for n
    unfolding a_def
  proof (rule mult_mono)
    show "1 / real (Suc n * 2 + 1) \<le> 1 / real (n * 2 + 1)" by (rule frac_le) simp_all
    show "x ^ (Suc n * 2 + 1) \<le> x ^ (n * 2 + 1)"
      using assms by (intro power_decreasing) simp_all
    show "0 \<le> 1 / real (n * 2 + 1)" by simp
    show "0 \<le> x ^ (Suc n * 2 + 1)" using assms by simp
  qed
  have s: "arctan x = (\<Sum>i. (- 1) ^ i * a i)"
    unfolding a_def using ax by (rule arctan_series)
  show "(\<Sum>i<2 * n. (- 1) ^ i * (1 / real (i * 2 + 1) * x ^ (i * 2 + 1))) \<le> arctan x"
    using summable_Leibniz'(2)[OF z p m, of n] unfolding s a_def .
  show "arctan x \<le> (\<Sum>i<2 * n + 1. (- 1) ^ i * (1 / real (i * 2 + 1) * x ^ (i * 2 + 1)))"
    using summable_Leibniz'(4)[OF z p m, of n] unfolding s a_def .
qed

lemma pi_bounds: "314159265 / 10 ^ 8 < pi" "pi < 314159266 / 10 ^ 8"
proof -
  have pi_eq: "pi = 16 * arctan (1 / 5) - 4 * arctan (1 / 239)"
    using machin by simp
  have l5: "(\<Sum>i<2 * 3. (- 1) ^ i * (1 / real (i * 2 + 1) * (1 / 5) ^ (i * 2 + 1))) \<le> arctan (1 / 5)"
    by (rule arctan_series_bounds) simp_all
  have u5: "arctan (1 / 5) \<le> (\<Sum>i<2 * 3 + 1. (- 1) ^ i * (1 / real (i * 2 + 1) * (1 / 5) ^ (i * 2 + 1)))"
    by (rule arctan_series_bounds) simp_all
  have l239: "(\<Sum>i<2 * 1. (- 1) ^ i * (1 / real (i * 2 + 1) * (1 / 239) ^ (i * 2 + 1))) \<le> arctan (1 / 239)"
    by (rule arctan_series_bounds) simp_all
  have u239: "arctan (1 / 239) \<le> (\<Sum>i<2 * 1 + 1. (- 1) ^ i * (1 / real (i * 2 + 1) * (1 / 239) ^ (i * 2 + 1)))"
    by (rule arctan_series_bounds) simp_all
  have s6: "{..<2 * 3} = {0, 1, 2, 3, 4, 5::nat}" by auto
  have s7: "{..<2 * 3 + 1} = {0, 1, 2, 3, 4, 5, 6::nat}" by auto
  have s2: "{..<2 * 1} = {0, 1::nat}" by auto
  have s3: "{..<2 * 1 + 1} = {0, 1, 2::nat}" by auto
  show "314159265 / 10 ^ 8 < pi" "pi < 314159266 / 10 ^ 8"
    using l5 u5 l239 u239 unfolding pi_eq s6 s7 s2 s3 by (simp_all add: power_divide)
qed

subsection \<open>Rounding in the luminosity function\<close>

lemma rnd_overflow:
  assumes "2 ^ 1024 \<le> x"
  shows "rnd x = PosInf"
proof -
  have x0: "0 < x" using assms by (rule less_le_trans[rotated]) simp
  define k where "k = ilog 2 x"
  have kb: "2 powi k \<le> x" "x < 2 powi (k + 1)"
    using ilog_bounds[of 2 x] x0 unfolding k_def by simp_all
  have "(2::rat) powi 1024 < 2 powi (k + 1)" using assms kb(2) by simp
  then have k1: "1024 \<le> k"
    using power_int_increasing[of "k + 1" "1024" "2::rat"] by (cases "1024 \<le> k") simp_all
  define e where "e = k - 52"
  define n where "n = round_even (x / 2 powi e)"
  have e0: "(0::rat) < 2 powi e" by simp
  have "(2::rat) powi 52 = 2 powi k / 2 powi e" unfolding e_def
    by (subst power_int_diff[symmetric]) simp_all
  also have "\<dots> \<le> x / 2 powi e" using kb(1) e0 by (simp add: divide_right_mono)
  finally have "of_int (2 ^ 52) \<le> x / 2 powi e" by simp
  then have "round_even (of_int (2 ^ 52)) \<le> n" unfolding n_def by (rule round_even_mono)
  then have n52: "2 ^ 52 \<le> n" by (simp only: round_even_of_int)
  have "(2::rat) ^ 1024 \<le> 2 powi k" 
    using power_int_increasing[of 1024 k "2::rat"] k1 by simp
  also have "\<dots> = 2 powi 52 * 2 powi e" unfolding e_def
    by (subst power_int_add[symmetric]) simp_all
  also have "\<dots> \<le> of_int n * 2 powi e"
  proof (rule mult_right_mono)
    have "(of_int (2 ^ 52) :: rat) \<le> of_int n" using n52 by (simp only: of_int_le_iff)
    then show "(2::rat) powi 52 \<le> of_int n" by simp
    show "(0::rat) \<le> 2 powi e" by simp
  qed
  finally have big: "2 ^ 1024 \<le> of_int n * (2::rat) powi e" .
  have km: "max k (- 1022) = k" using k1 by simp
  show ?thesis
    using x0 big unfolding rnd_def n_def e_def k_def[symmetric]
    by (simp add: Let_def k_def[symmetric] km)
qed

lemma luminosity_rounding:
  assumes "1 \<le> T" "T \<le> 10 ^ 74"
  shows "\<exists>t y. float_of_int (T ^ 4) = Inr (Finite t) \<and> luminosity T = Inr (Finite y)
           \<and> \<bar>t - of_int (T ^ 4)\<bar> \<le> of_int (T ^ 4) / 2 ^ 53
           \<and> \<bar>y - 706872936433031 / 2048 * t\<bar> \<le> 706872936433031 / 2048 * t / 2 ^ 53
           \<and> 0 < t \<and> 0 < y"
proof -
  define K :: rat where "K = of_int (T ^ 4)"
  have "1 ^ 4 \<le> T ^ 4" using assms(1) by (intro power_mono) simp_all
  then have K1i: "1 \<le> T ^ 4" by simp
  have "T ^ 4 \<le> (10 ^ 74) ^ 4" using assms by (intro power_mono) simp_all
  then have K2i: "T ^ 4 \<le> 10 ^ 296" by simp
  have K1: "1 \<le> K" unfolding K_def using K1i by (simp only: of_int_1_le_iff)
  have "(of_int (T ^ 4) :: rat) \<le> of_int (10 ^ 296)" using K2i by (simp only: of_int_le_iff)
  then have K2: "K \<le> 10 ^ 296" unfolding K_def by simp
  have a1: "2 powi (- 1022) \<le> K"
  proof -
    have "(2::rat) powi (- 1022) \<le> 2 powi 0" by (intro power_int_increasing) simp_all
    then show ?thesis using K1 by simp
  qed
  have a2: "K < 2 powi 1023" using K2 by simp
  obtain t where t: "rnd K = Finite t" "\<bar>t - K\<bar> \<le> K / 2 ^ 53" "0 < t"
    using rnd_normal[OF a1 a2] by blast
  have f: "float_of_int (T ^ 4) = Inr (Finite t)"
    unfolding float_of_int_def K_def[symmetric] t(1) by simp
  define c :: rat where "c = 706872936433031 / 2048"
  have h: "K / 2 ^ 53 \<le> K / 2" using K1 by simp
  have tb: "1 / 2 \<le> t" "t \<le> 2 * 10 ^ 296" using t(2) K1 K2 h by linarith+
  have b1: "2 powi (- 1022) \<le> c * t"
  proof -
    have "(2::rat) powi (- 1022) \<le> 2 powi 0" by (intro power_int_increasing) simp_all
    moreover have "1 \<le> c * t" using tb(1) unfolding c_def by simp
    ultimately show ?thesis by simp
  qed
  have b2: "c * t < 2 powi 1023" using tb(2) unfolding c_def by simp
  obtain y where y: "rnd (c * t) = Finite y" "\<bar>y - c * t\<bar> \<le> c * t / 2 ^ 53" "0 < y"
    using rnd_normal[OF b1 b2] by blast
  have l: "luminosity T = Inr (Finite y)"
    unfolding luminosity_eq f using y(1) by (simp add: bind_def c_def)
  show ?thesis
    using f l t(2,3) y(2,3) unfolding K_def c_def by blast
qed

subsection \<open>The boundary and solar temperatures\<close>

declare digits10.simps [simp del]

declare split_from.simps [simp del]

lemma float_of_int_3000: "float_of_int (3000 ^ 4) = Inr (Finite 81000000000000)"
  unfolding float_of_int_def
  by (subst rnd_eval(1)[where k = 46]) (simp_all add: rnd_simps)

lemma luminosity_3000: "luminosity 3000 = Inr (Finite 27957376880407963972403200)"
proof -
  have b: "fmul (Finite (706872936433031 / 2048)) (Finite 81000000000000)
             = Finite 27957376880407963972403200"
    unfolding fmul.simps by (subst rnd_eval(1)[where k = 84]) (simp_all add: rnd_simps)
  show ?thesis unfolding luminosity_eq float_of_int_3000 by (simp only: bind_def sum.case b)
qed

lemma float_of_int_12000: "float_of_int (12000 ^ 4) = Inr (Finite 20736000000000000)"
  unfolding float_of_int_def
  by (subst rnd_eval(1)[where k = 54]) (simp_all add: rnd_simps)

lemma luminosity_12000: "luminosity 12000 = Inr (Finite 7157088481384438776935219200)"
proof -
  have b: "fmul (Finite (706872936433031 / 2048)) (Finite 20736000000000000)
             = Finite 7157088481384438776935219200"
    unfolding fmul.simps by (subst rnd_eval(1)[where k = 92]) (simp_all add: rnd_simps)
  show ?thesis unfolding luminosity_eq float_of_int_12000 by (simp only: bind_def sum.case b)
qed

lemma float_of_int_5778: "float_of_int (5778 ^ 4) = Inr (Finite 1114577187760656)"
  unfolding float_of_int_def
  by (subst rnd_eval(1)[where k = 49]) (simp_all add: rnd_simps)

lemma luminosity_5778: "luminosity 5778 = Inr (Finite 384699438278146786085306368)"
proof -
  have b: "fmul (Finite (706872936433031 / 2048)) (Finite 1114577187760656)
             = Finite 384699438278146786085306368"
    unfolding fmul.simps by (subst rnd_eval(1)[where k = 88]) (simp_all add: rnd_simps)
  show ?thesis unfolding luminosity_eq float_of_int_5778 by (simp only: bind_def sum.case b)
qed

lemma sci_digits_5778: "sci_digits 384699438278146786085306368 = (385, 26)"
proof -
  have "ilog 10 384699438278146786085306368 = 26"
    by (rule ilog_unique) simp_all
  then show ?thesis unfolding sci_digits_def by (simp add: rnd_simps)
qed

lemma format_e2_5778: "format_e2 (Finite 384699438278146786085306368) = ''3.85e+26''"
  by (simp add: sci_digits_5778 mant_str_def exp_str_def exp_digits_def digits10.simps digit_char_def char_of_def)

lemma split_formatted_solar: "split_formatted ''3.85e+26'' = Inr (''3.85'', ''26'')"
  by (simp add: split_formatted_def py_split_def unpack2_def bind_def split_from.simps)

lemma solar_lit: "float_lit (383 * 10 ^ 24) = Finite 382999999999999983373778944"
  unfolding float_lit_def
  by (subst rnd_eval(1)[where k = 88]) (simp_all add: rnd_simps)

lemma ratio_5778:
  "fdiv (Finite 384699438278146786085306368) (Finite 382999999999999983373778944)
     = Inr (Finite (4523582890023763 / 4503599627370496))"
  unfolding fdiv_def ieee_div.simps
  by (subst rnd_eval(1)[where k = 0]) (simp_all add: rnd_simps)

lemma format_f1_5778: "format_f1 (Finite (4523582890023763 / 4503599627370496)) = ''1.0''"
  by (simp add: rnd_simps digits10.simps digit_char_def char_of_def)

lemma render_text_5778: "render_text 5778 = Inr (''3.85'', ''26'', ''1.0'')"
  by (simp only: render_text_def luminosity_5778 bind_def sum.case format_e2_5778 split_formatted_solar
      prod.case solar_lit ratio_5778 format_f1_5778)

subsection \<open>The shape of a formatted float\<close>

lemma digit_char_digit:
  assumes "0 \<le> d" "d \<le> 9"
  shows "digit_char d \<in> set ''0123456789''"
proof -
  have "d = 0 \<or> d = 1 \<or> d = 2 \<or> d = 3 \<or> d = 4 \<or> d = 5 \<or> d = 6 \<or> d = 7 \<or> d = 8 \<or> d = 9"
    using assms by presburger
  then show ?thesis
    by (elim disjE) (simp_all add: digit_char_def char_of_def)
qed

lemma digit_not_e: "c \<in> set ''0123456789'' \<Longrightarrow> c \<noteq> CHR ''e''"
  by auto

lemma digits_no_e: "set s \<subseteq> set ''0123456789'' \<Longrightarrow> CHR ''e'' \<notin> set s"
  using digit_not_e by blast

lemma digits10_digits: "0 \<le> n \<Longrightarrow> set (digits10 n) \<subseteq> set ''0123456789''"
proof (induction n rule: digits10.induct)
  case (1 n)
  show ?case
  proof (cases "n < 10")
    case True
    then have "digits10 n = [digit_char n]" by (subst digits10.simps) simp
    moreover have "digit_char n \<in> set ''0123456789''"
      using True "1.prems" by (intro digit_char_digit) simp_all
    ultimately show ?thesis by simp
  next
    case False
    then have eq: "digits10 n = digits10 (n div 10) @ [digit_char (n mod 10)]"
      by (subst digits10.simps) simp
    have "set (digits10 (n div 10)) \<subseteq> set ''0123456789''"
      using "1.IH" False "1.prems" by simp
    moreover have "digit_char (n mod 10) \<in> set ''0123456789''"
      by (intro digit_char_digit) simp_all
    ultimately show ?thesis unfolding eq by simp
  qed
qed

lemma digits10_nonempty: "digits10 n \<noteq> []"
  by (subst digits10.simps) simp

lemma digits10_length2: "10 \<le> n \<Longrightarrow> 2 \<le> length (digits10 n)"
proof -
  assume "10 \<le> n"
  then have "digits10 n = digits10 (n div 10) @ [digit_char (n mod 10)]"
    by (subst digits10.simps) simp
  moreover have "1 \<le> length (digits10 (n div 10))"
    using digits10_nonempty[of "n div 10"] by (cases "digits10 (n div 10)") simp_all
  ultimately show ?thesis by simp
qed

lemma exp_digits_digits: "set (exp_digits e) \<subseteq> set ''0123456789''"
proof -
  have "set (digits10 \<bar>e\<bar>) \<subseteq> set ''0123456789''" by (rule digits10_digits) simp
  then show ?thesis unfolding exp_digits_def by auto
qed

lemma exp_digits_length: "2 \<le> length (exp_digits e)"
proof (cases "\<bar>e\<bar> < 10")
  case True
  have "1 \<le> length (digits10 \<bar>e\<bar>)"
    using digits10_nonempty[of "\<bar>e\<bar>"] by (cases "digits10 \<bar>e\<bar>") simp_all
  then show ?thesis using True unfolding exp_digits_def by simp
next
  case False
  then have "2 \<le> length (digits10 \<bar>e\<bar>)" by (intro digits10_length2) simp
  then show ?thesis using False unfolding exp_digits_def by simp
qed

lemma round_even_bounds:
  assumes "of_int a \<le> z" "z \<le> of_int b"
  shows "a \<le> round_even z" "round_even z \<le> b"
  using round_even_mono[OF assms(1)] round_even_mono[OF assms(2)]
  by (simp_all add: round_even_of_int)

lemma sci_digits_range:
  assumes "0 < x" "sci_digits x = (m, e)"
  shows "100 \<le> m" "m \<le> 999"
    and "e = ilog 10 x \<or> e = ilog 10 x + 1 \<and> 9995 / 10 \<le> x / 10 powi (ilog 10 x - 2)"
proof -
  define e0 where "e0 = ilog 10 x"
  define z where "z = x / 10 powi (e0 - 2)"
  define m0 where "m0 = round_even z"
  have b: "10 powi e0 \<le> x" "x < 10 powi (e0 + 1)"
    using ilog_bounds[of 10 x] assms(1) unfolding e0_def by simp_all
  have p0: "(0::rat) < 10 powi (e0 - 2)" by simp
  have "(10::rat) powi e0 = 10 powi (2 + (e0 - 2))" by simp
  also have "\<dots> = 10 powi 2 * 10 powi (e0 - 2)" by (rule power_int_add) simp
  finally have "(10::rat) powi e0 = 10 powi 2 * 10 powi (e0 - 2)" .
  then have lo: "100 \<le> z" unfolding z_def using b(1) p0 by (simp add: pos_le_divide_eq)
  have "(10::rat) powi (e0 + 1) = 10 powi (3 + (e0 - 2))"
    by (rule arg_cong[where f = "\<lambda>n. 10 powi n"]) simp
  also have "\<dots> = 10 powi 3 * 10 powi (e0 - 2)" by (rule power_int_add) simp
  finally have "(10::rat) powi (e0 + 1) = 10 powi 3 * 10 powi (e0 - 2)" .
  then have hi: "z < 1000" unfolding z_def using b(2) p0 by (simp add: pos_divide_less_eq)
  have m0b: "100 \<le> m0" "m0 \<le> 1000"
    unfolding m0_def using round_even_bounds[of 100 z 1000] lo hi by simp_all
  have "sci_digits x = (if m0 = 1000 then (100, e0 + 1) else (m0, e0))"
    unfolding sci_digits_def m0_def z_def e0_def by (simp add: Let_def)
  then have sd: "(m, e) = (if m0 = 1000 then (100, e0 + 1) else (m0, e0))"
    using assms(2) by simp
  show "100 \<le> m" "m \<le> 999" using sd m0b by (auto split: if_splits)
  have "9995 / 10 \<le> z" if "m0 = 1000"
  proof -
    have "\<bar>of_int m0 - z\<bar> \<le> 1 / 2" unfolding m0_def by (rule round_even_error)
    then have "\<bar>1000 - z\<bar> \<le> 1 / 2" using that by simp
    then show ?thesis by linarith
  qed
  then show "e = ilog 10 x \<or> e = ilog 10 x + 1 \<and> 9995 / 10 \<le> x / 10 powi (ilog 10 x - 2)"
    using sd unfolding e0_def z_def by (auto split: if_splits)
qed

lemma mant_str_shape:
  assumes "100 \<le> m" "m \<le> 999"
  shows "length (mant_str m) = 4" "CHR ''e'' \<notin> set (mant_str m)"
proof -
  have d1: "digit_char (m div 100) \<in> set ''0123456789''"
    using assms by (intro digit_char_digit) simp_all
  have d2: "digit_char (m div 10 mod 10) \<in> set ''0123456789''"
    by (intro digit_char_digit) simp_all
  have d3: "digit_char (m mod 10) \<in> set ''0123456789''"
    by (intro digit_char_digit) simp_all
  show "length (mant_str m) = 4" unfolding mant_str_def by simp
  show "CHR ''e'' \<notin> set (mant_str m)"
    using digit_not_e[OF d1] digit_not_e[OF d2] digit_not_e[OF d3] unfolding mant_str_def by simp
qed

lemma format_e2_pos:
  assumes "0 < x" "sci_digits x = (m, e)"
  shows "format_e2 (Finite x) = mant_str m @ ''e'' @ exp_str e"
  using assms by simp

subsection \<open>Substring test and split\<close>

lemma py_in_prefix: "take (length sub) s = sub \<Longrightarrow> py_in sub s"
  by (cases s) simp_all

lemma py_in_append: "py_in sub (a @ sub @ b)"
proof (induction a)
  case Nil
  show ?case by (simp add: py_in_prefix)
next
  case (Cons c a)
  then show ?case by simp
qed

lemma py_in_absent: "c \<notin> set s \<Longrightarrow> \<not> py_in (c # r) s"
  by (induction s) auto

lemma py_in_skip: "c \<notin> set a \<Longrightarrow> py_in (c # r) (a @ s) = py_in (c # r) s"
  by (induction a) auto

lemma split_from_skip:
  "c \<notin> set a \<Longrightarrow> split_from (c # r) cur (a @ s) = split_from (c # r) (cur @ a) s"
proof (induction a arbitrary: cur)
  case Nil
  show ?case by simp
next
  case (Cons x a)
  have "split_from (c # r) cur ((x # a) @ s) = split_from (c # r) (cur @ [x]) (a @ s)"
    using Cons.prems by (subst split_from.simps) auto
  also have "\<dots> = split_from (c # r) ((cur @ [x]) @ a) s"
    using Cons.prems by (intro Cons.IH) simp
  finally show ?case by simp
qed

lemma split_from_hit: "sep \<noteq> [] \<Longrightarrow> split_from sep cur (sep @ s) = cur # split_from sep [] s"
  by (subst split_from.simps) simp

lemma split_from_none: "c \<notin> set s \<Longrightarrow> split_from (c # r) cur s = [cur @ s]"
proof -
  assume "c \<notin> set s"
  then have "split_from (c # r) cur (s @ []) = split_from (c # r) (cur @ s) []"
    by (rule split_from_skip)
  then show ?thesis by (simp add: split_from.simps[of _ _ "[]"])
qed

lemma split_formatted_sci:
  assumes "CHR ''e'' \<notin> set a" "CHR ''e'' \<notin> set ds"
  shows "split_formatted (a @ ''e+'' @ ds) = Inr (a, ds)"
    and "split_formatted (a @ ''e-'' @ ds) = Inr (a, ''-'' @ ds)"
proof -
  have in1: "py_in ''e+'' (a @ ''e+'' @ ds)" by (rule py_in_append)
  have sp1: "split_from ''e+'' [] (a @ ''e+'' @ ds) = [a, ds]"
  proof -
    have "split_from ''e+'' [] (a @ ''e+'' @ ds) = split_from ''e+'' ([] @ a) (''e+'' @ ds)"
      using assms(1) by (rule split_from_skip)
    also have "\<dots> = a # split_from ''e+'' [] ds"
      using split_from_hit[of "''e+''" a ds] by simp
    also have "split_from ''e+'' [] ds = [[] @ ds]" using assms(2) by (rule split_from_none)
    finally show ?thesis by simp
  qed
  show "split_formatted (a @ ''e+'' @ ds) = Inr (a, ds)"
    unfolding split_formatted_def using in1 sp1
    by (simp add: py_split_def bind_def unpack2_def)
  have "py_in ''e+'' (a @ ''e-'' @ ds) = py_in ''e+'' (''e-'' @ ds)"
    using assms(1) by (rule py_in_skip)
  also have "\<dots> = py_in ''e+'' ds" by simp
  finally have nin: "\<not> py_in ''e+'' (a @ ''e-'' @ ds)"
    using py_in_absent[OF assms(2)] by simp
  have in2: "py_in ''e-'' (a @ ''e-'' @ ds)" by (rule py_in_append)
  have sp2: "split_from ''e-'' [] (a @ ''e-'' @ ds) = [a, ds]"
  proof -
    have "split_from ''e-'' [] (a @ ''e-'' @ ds) = split_from ''e-'' ([] @ a) (''e-'' @ ds)"
      using assms(1) by (rule split_from_skip)
    also have "\<dots> = a # split_from ''e-'' [] ds"
      using split_from_hit[of "''e-''" a ds] by simp
    also have "split_from ''e-'' [] ds = [[] @ ds]" using assms(2) by (rule split_from_none)
    finally show ?thesis by simp
  qed
  show "split_formatted (a @ ''e-'' @ ds) = Inr (a, ''-'' @ ds)"
    unfolding split_formatted_def using nin in2 sp2
    by (simp add: py_split_def bind_def unpack2_def)
qed

lemma format_e2_shape:
  assumes "0 < x"
  shows "CHR ''e'' \<notin> set (mant_str (fst (sci_digits x)))"
    and "CHR ''e'' \<notin> set (exp_digits (snd (sci_digits x)))"
    and "format_e2 (Finite x) = mant_str (fst (sci_digits x))
           @ (if snd (sci_digits x) < 0 then ''e-'' else ''e+'') @ exp_digits (snd (sci_digits x))"
proof -
  obtain m e where me: "sci_digits x = (m, e)" by (cases "sci_digits x")
  have r: "100 \<le> m" "m \<le> 999" using sci_digits_range(1,2)[OF assms me] by simp_all
  show "CHR ''e'' \<notin> set (mant_str (fst (sci_digits x)))"
    unfolding me using mant_str_shape(2)[OF r] by simp
  show "CHR ''e'' \<notin> set (exp_digits (snd (sci_digits x)))"
    using exp_digits_digits by (rule digits_no_e)
  show "format_e2 (Finite x) = mant_str (fst (sci_digits x))
           @ (if snd (sci_digits x) < 0 then ''e-'' else ''e+'') @ exp_digits (snd (sci_digits x))"
    unfolding format_e2_pos[OF assms me] me by (simp add: exp_str_def)
qed

lemma sci_digits_negative:
  assumes "0 < x" "x < 9995 / 10000"
  shows "snd (sci_digits x) < 0"
proof -
  obtain m e where me: "sci_digits x = (m, e)" by (cases "sci_digits x")
  define e0 where "e0 = ilog 10 x"
  have b: "10 powi e0 \<le> x" using ilog_bounds[of 10 x] assms(1) unfolding e0_def by simp
  have "(10::rat) powi e0 < 10 powi 0" using b assms(2) by simp
  then have lt1: "(10::rat) powi e0 < 1" by simp
  have e0n: "e0 < 0"
  proof (rule ccontr)
    assume "\<not> e0 < 0"
    then have "(1::rat) \<le> 10 powi e0" by simp
    then show False using lt1 by linarith
  qed
  have c: "e = e0 \<or> e = e0 + 1 \<and> 9995 / 10 \<le> x / 10 powi (e0 - 2)"
    using sci_digits_range(3)[OF assms(1) me] unfolding e0_def .
  have "e < 0"
  proof (cases "e0 = - 1")
    case True
    have "x / 10 powi (e0 - 2) = x * 1000" unfolding True by simp
    then have "\<not> 9995 / 10 \<le> x / 10 powi (e0 - 2)" using assms(2) by simp
    then show ?thesis using c e0n by simp
  next
    case False
    then show ?thesis using c e0n by linarith
  qed
  then show ?thesis unfolding me by simp
qed

lemma lit_005: "float_lit (5 / 100) = Finite (3602879701896397 / 72057594037927936)"
  unfolding float_lit_def
  by (subst rnd_eval(1)[where k = "- 5"]) (simp_all add: rnd_simps)

lemma sci_digits_005: "sci_digits (3602879701896397 / 72057594037927936) = (500, - 2)"
proof -
  have "ilog 10 (3602879701896397 / 72057594037927936) = - 2"
    by (rule ilog_unique) simp_all
  then show ?thesis unfolding sci_digits_def by (simp add: rnd_simps)
qed

lemma format_e2_005: "format_e2 (Finite (3602879701896397 / 72057594037927936)) = ''5.00e-02''"
  by (simp add: sci_digits_005 mant_str_def exp_str_def exp_digits_def digits10.simps
      digit_char_def char_of_def)

lemma split_formatted_005: "split_formatted ''5.00e-02'' = Inr (''5.00'', ''-02'')"
  by (simp add: split_formatted_def py_split_def unpack2_def bind_def split_from.simps)

subsection \<open>Normalised temperature and session state\<close>

lemma rnd_zero: "rnd 0 = Finite 0"
  by (simp add: rnd_def)



lemma read_init: "st ''T_current'' = None \<Longrightarrow> read_T (init_session st) = Inr T_init"
  by (simp add: read_T_def init_session_def)

lemma read_keep: "st ''T_current'' = Some v \<Longrightarrow> read_T (init_session st) = Inr v"
  by (simp add: read_T_def init_session_def)

lemma read_slider_set: "read_T (init_session (slider_set v st)) = Inr v"
  by (rule read_keep) (simp add: slider_set_def)

subsection \<open>Float arguments\<close>

lemma luminosity_float_eq:
  "luminosity_float T = Inr (fmul (Finite (706872936433031 / 2048)) (np_power T 4))"
  unfolding luminosity_float_def four_eq R2_eq
  by (simp only: bind_def sum.case four_pi_eq four_pi_R2_eq coeff_eq)

lemma coeff_rounding:
  assumes "1 / 10 ^ 304 \<le> K" "K \<le> 10 ^ 296"
  shows "\<exists>p y. rnd K = Finite p \<and> rnd (706872936433031 / 2048 * p) = Finite y
           \<and> \<bar>p - K\<bar> \<le> K / 2 ^ 53
           \<and> \<bar>y - 706872936433031 / 2048 * p\<bar> \<le> 706872936433031 / 2048 * p / 2 ^ 53
           \<and> 0 < p \<and> 0 < y"
proof -
  have K0: "0 < K" using assms(1) by (rule less_le_trans[rotated]) simp
  have a1: "2 powi (- 1022) \<le> K"
  proof -
    have "(2::rat) powi (- 1022) \<le> 1 / 10 ^ 304" by simp
    then show ?thesis using assms(1) by linarith
  qed
  have a2: "K < 2 powi 1023" using assms(2) by simp
  obtain p where p: "rnd K = Finite p" "\<bar>p - K\<bar> \<le> K / 2 ^ 53" "0 < p"
    using rnd_normal[OF a1 a2] by blast
  define c :: rat where "c = 706872936433031 / 2048"
  have h: "K / 2 ^ 53 \<le> K / 2" using K0 by simp
  have pb: "1 / (2 * 10 ^ 304) \<le> p" "p \<le> 2 * 10 ^ 296" using p(2) assms h by linarith+
  have b1: "2 powi (- 1022) \<le> c * p"
  proof -
    have "(2::rat) powi (- 1022) \<le> 1 / (2 * 10 ^ 304)" by simp
    moreover have "p \<le> c * p" using p(3) unfolding c_def by simp
    ultimately show ?thesis using pb(1) by linarith
  qed
  have b2: "c * p < 2 powi 1023" using pb(2) unfolding c_def by simp
  obtain y where y: "rnd (c * p) = Finite y" "\<bar>y - c * p\<bar> \<le> c * p / 2 ^ 53" "0 < y"
    using rnd_normal[OF b1 b2] by blast
  show ?thesis using p y unfolding c_def by blast
qed

lemma luminosity_num_rounding:
  assumes "num_value v = Some t" "1 / 10 ^ 76 \<le> t" "t \<le> 10 ^ 74"
  shows "\<exists>p y. luminosity_num v = Inr (Finite y)
           \<and> \<bar>p - t ^ 4\<bar> \<le> t ^ 4 / 2 ^ 53
           \<and> \<bar>y - 706872936433031 / 2048 * p\<bar> \<le> 706872936433031 / 2048 * p / 2 ^ 53
           \<and> 0 < p \<and> 0 < y"
proof -
  have t0: "0 \<le> t" using assms(2) by (rule order_trans[rotated]) simp
  have "(1 / 10 ^ 76) ^ 4 \<le> t ^ 4" using assms(2) by (intro power_mono) simp_all
  then have K1: "1 / 10 ^ 304 \<le> t ^ 4" by (simp add: power_divide)
  have "t ^ 4 \<le> (10 ^ 74) ^ 4" using assms(3) t0 by (intro power_mono) simp_all
  then have K2: "t ^ 4 \<le> 10 ^ 296" by simp
  obtain p y where p: "rnd (t ^ 4) = Finite p" and y: "rnd (706872936433031 / 2048 * p) = Finite y"
    and b: "\<bar>p - t ^ 4\<bar> \<le> t ^ 4 / 2 ^ 53"
      "\<bar>y - 706872936433031 / 2048 * p\<bar> \<le> 706872936433031 / 2048 * p / 2 ^ 53" "0 < p" "0 < y"
    using coeff_rounding[OF K1 K2] by blast
  have "luminosity_num v = Inr (Finite y)"
  proof (cases v)
    case (PyInt T)
    then have tT: "t = of_int T" using assms(1) by simp
    have "float_of_int (T ^ 4) = Inr (Finite p)"
      unfolding float_of_int_def using p unfolding tT by simp
    then show ?thesis unfolding PyInt luminosity_num.simps luminosity_eq
      using y by (simp add: bind_def)
  next
    case (PyFloat d)
    then have d: "d = Finite t" using assms(1) by (cases d) simp_all
    show ?thesis unfolding PyFloat d luminosity_num.simps luminosity_float_eq
      using p y by simp
  qed
  then show ?thesis using b by blast
qed




lemma rnd_tiny:
  assumes "0 < x" "x < 2 powi (- 1075)"
  shows "rnd x = Finite 0"
proof -
  define k where "k = ilog 2 x"
  have kb: "2 powi k \<le> x" using ilog_bounds[of 2 x] assms(1) unfolding k_def by simp
  have "(2::rat) powi k < 2 powi (- 1075)" using kb assms(2) by simp
  then have "k < - 1075"
    using power_int_increasing[of "- 1075" k "2::rat"] by (cases "k < - 1075") simp_all
  then have km: "max k (- 1022) - 52 = - 1074" by simp
  define z where "z = x / 2 powi (- 1074)"
  have "(2::rat) powi (- 1075) = 2 powi (- 1074) / 2"
    by (simp add: power_int_minus_divide)
  then have z1: "z < 1 / 2" unfolding z_def using assms(2)
    by (simp add: pos_divide_less_eq)
  have z0: "0 < z" unfolding z_def using assms(1) by simp
  have "\<lfloor>z\<rfloor> = 0" using z0 z1 by (intro floor_unique) simp_all
  then have "round_even z = 0" unfolding round_even_def using z1 by (simp add: Let_def)
  then have r0: "round_even (x / 2 powi (- 1074)) = 0" unfolding z_def .
  have absx: "\<bar>x\<bar> = x" using assms(1) by simp
  show ?thesis
    unfolding rnd_def Let_def absx k_def[symmetric] km r0 using assms(1) by simp
qed


lemma is_double_half: "is_double (1 / 2)"
  unfolding is_double_def
  by (subst rnd_eval(1)[where k = "- 1"]) (simp_all add: rnd_simps)

lemma is_double_tiny: "is_double (1 / 2 ^ 300)"
  unfolding is_double_def
  by (subst rnd_eval(1)[where k = "- 300"]) (simp_all add: rnd_simps)

section \<open>The luminosity function\<close>

text \<open>
  Claim C1. For every temperature \<open>T\<close> in \<open>[3000, 12000]\<close>, an integer or a float, the
  float returned by \<open>luminosity\<close> equals \<open>4 * pi * R\<^sup>2 * \<sigma> * T ^ 4\<close>, with
  \<open>R = 6.96e8\<close> and \<open>\<sigma> = 5.67e-8\<close> and the real number \<open>pi\<close>, within a relative
  tolerance of \<open>1e-6\<close>.
\<close>

theorem luminosity_stefan_boltzmann:
  assumes "num_value v = Some t" "of_int T_min \<le> t" "t \<le> of_int T_max"
  shows "\<exists>y. luminosity_num v = Inr (Finite y) \<and>
           \<bar>real_of_rat y - 4 * pi * 696000000\<^sup>2 * (567 / 10 ^ 10) * real_of_rat t ^ 4\<bar>
             \<le> 1 / 10 ^ 6 * (4 * pi * 696000000\<^sup>2 * (567 / 10 ^ 10) * real_of_rat t ^ 4)"
proof -
  have r: "1 / 10 ^ 76 \<le> t" "t \<le> 10 ^ 74" using assms(2,3) unfolding T_min_def T_max_def by simp_all
  obtain p y where l: "luminosity_num v = Inr (Finite y)"
    and pb: "\<bar>p - t ^ 4\<bar> \<le> t ^ 4 / 2 ^ 53"
    and yb: "\<bar>y - 706872936433031 / 2048 * p\<bar> \<le> 706872936433031 / 2048 * p / 2 ^ 53"
    using luminosity_num_rounding[OF assms(1) r] by blast
  have p53: "(2::rat) ^ 53 = 9007199254740992" by simp
  have Kq: "(0::rat) \<le> t ^ 4" by simp
  have lo: "345152800992 * t ^ 4 \<le> y" using pb yb Kq unfolding p53 by linarith
  have hi: "y \<le> 345152800993 * t ^ 4" using pb yb Kq unfolding p53 by linarith
  define K :: real where "K = real_of_rat t ^ 4"
  define C :: real where "C = 4 * pi * 696000000\<^sup>2 * (567 / 10 ^ 10)"
  have K0: "0 \<le> K" unfolding K_def by simp
  have "real_of_rat (345152800992 * t ^ 4) \<le> real_of_rat y"
    using lo by (simp only: of_rat_less_eq)
  then have lo': "345152800992 * K \<le> real_of_rat y"
    unfolding K_def by (simp add: of_rat_mult of_rat_power)
  have "real_of_rat y \<le> real_of_rat (345152800993 * t ^ 4)"
    using hi by (simp only: of_rat_less_eq)
  then have hi': "real_of_rat y \<le> 345152800993 * K"
    unfolding K_def by (simp add: of_rat_mult of_rat_power)
  have cl: "(1 - 1 / 10 ^ 6) * C \<le> 345152800992"
    unfolding C_def using pi_bounds by simp
  have cu: "345152800993 \<le> (1 + 1 / 10 ^ 6) * C"
    unfolding C_def using pi_bounds by simp
  have "(1 - 1 / 10 ^ 6) * C * K \<le> 345152800992 * K"
    using cl K0 by (rule mult_right_mono)
  then have a: "C * K - 1 / 10 ^ 6 * (C * K) \<le> real_of_rat y"
    using lo' by (simp add: algebra_simps)
  have "345152800993 * K \<le> (1 + 1 / 10 ^ 6) * C * K"
    using cu K0 by (rule mult_right_mono)
  then have b: "real_of_rat y \<le> C * K + 1 / 10 ^ 6 * (C * K)"
    using hi' by (simp add: algebra_simps)
  have "\<bar>real_of_rat y - C * K\<bar> \<le> 1 / 10 ^ 6 * (C * K)"
    using a b by linarith
  then show ?thesis using l unfolding C_def K_def by blast
qed

theorem luminosity_stefan_boltzmann_witness:
  "num_value (PyFloat (Finite (6045 / 2))) = Some (6045 / 2) \<and>
   of_int T_min \<le> (6045 / 2 :: rat) \<and> (6045 / 2 :: rat) \<le> of_int T_max \<and>
   (\<exists>y. luminosity_num (PyFloat (Finite (6045 / 2))) = Inr (Finite y) \<and>
           \<bar>real_of_rat y - 4 * pi * 696000000\<^sup>2 * (567 / 10 ^ 10) * real_of_rat (6045 / 2) ^ 4\<bar>
             \<le> 1 / 10 ^ 6 * (4 * pi * 696000000\<^sup>2 * (567 / 10 ^ 10) * real_of_rat (6045 / 2) ^ 4))"
proof -
  have a: "num_value (PyFloat (Finite (6045 / 2))) = Some (6045 / 2)" by simp
  have b: "of_int T_min \<le> (6045 / 2 :: rat)" by (simp add: T_min_def)
  have c: "(6045 / 2 :: rat) \<le> of_int T_max" by (simp add: T_max_def)
  show ?thesis using a b c luminosity_stefan_boltzmann[OF a b c] by blast
qed



text \<open>
  Claim C3, as the code has it. With the constants of the script, \<open>luminosity 3000\<close> is
  within 0.1% of \<open>2.796e25\<close> W and \<open>luminosity 12000\<close> within 0.1% of \<open>7.157e27\<close> W.
\<close>

theorem boundary_luminosity_values:
  "luminosity T_min = Inr (Finite 27957376880407963972403200) \<and>
   \<bar>27957376880407963972403200 - 2796 * 10 ^ 22\<bar> \<le> (1 / 1000 * (2796 * 10 ^ 22) :: rat) \<and>
   luminosity T_max = Inr (Finite 7157088481384438776935219200) \<and>
   \<bar>7157088481384438776935219200 - 7157 * 10 ^ 24\<bar> \<le> (1 / 1000 * (7157 * 10 ^ 24) :: rat)"
  unfolding T_min_def T_max_def luminosity_3000 luminosity_12000 by simp

text \<open>
  The values \<open>1.497e24\<close> and \<open>3.838e27\<close> are not within 0.1% of what the function
  returns at \<open>3000\<close> and at \<open>12000\<close>.
\<close>

theorem boundary_luminosity_counterexample:
  "luminosity 3000 = Inr (Finite 27957376880407963972403200) \<and>
   \<not> \<bar>27957376880407963972403200 - 1497 * 10 ^ 21\<bar> \<le> (1 / 1000 * (1497 * 10 ^ 21) :: rat) \<and>
   luminosity 12000 = Inr (Finite 7157088481384438776935219200) \<and>
   \<not> \<bar>7157088481384438776935219200 - 3838 * 10 ^ 24\<bar> \<le> (1 / 1000 * (3838 * 10 ^ 24) :: rat)"
  unfolding luminosity_3000 luminosity_12000 by simp

text \<open>
  Claim C8, as the code has it. \<open>luminosity\<close> returns a finite positive float and raises
  no exception for every argument, integer or float, from \<open>1e-76\<close> to \<open>1e74\<close>, a range
  that contains \<open>[3000, 12000]\<close>. It is not total over all positive inputs: for a large
  integer the conversion of \<open>T ** 4\<close> to a float raises OverflowError, and for a tiny
  float the power underflows to zero.
\<close>

theorem luminosity_finite_positive:
  assumes "num_value v = Some t" "1 / 10 ^ 76 \<le> t" "t \<le> 10 ^ 74"
  shows "\<exists>y. luminosity_num v = Inr (Finite y) \<and> 0 < y"
  using luminosity_num_rounding[OF assms] by blast

theorem luminosity_finite_positive_witness:
  "num_value (PyFloat (Finite (1 / 2))) = Some (1 / 2) \<and> (1 / 10 ^ 76 :: rat) \<le> 1 / 2 \<and>
   (1 / 2 :: rat) \<le> 10 ^ 74 \<and> (\<exists>y. luminosity_num (PyFloat (Finite (1 / 2))) = Inr (Finite y) \<and> 0 < y)"
proof -
  have a: "num_value (PyFloat (Finite (1 / 2))) = Some (1 / 2)" by simp
  have b: "(1 / 10 ^ 76 :: rat) \<le> 1 / 2" by simp
  have c: "(1 / 2 :: rat) \<le> 10 ^ 74" by simp
  show ?thesis using a b c luminosity_finite_positive[OF a b c] by blast
qed

text \<open>
  The positive integer \<open>10 ^ 80\<close>: its fourth power is too large for a float, and the
  call raises OverflowError. The positive float \<open>2 ^ -300\<close>: its fourth power is the float
  \<open>0.0\<close>, and so is the result, which is not positive.
\<close>

theorem luminosity_overflow_counterexample:
  "(0::int) < 10 ^ 80 \<and> luminosity (10 ^ 80) = Inl OverflowError \<and>
   luminosity_num (PyInt (10 ^ 80)) = Inl OverflowError \<and>
   (0::rat) < 1 / 2 ^ 300 \<and> well_formed (PyFloat (Finite (1 / 2 ^ 300))) \<and>
   luminosity_num (PyFloat (Finite (1 / 2 ^ 300))) = Inr (Finite 0)"
proof -
  have "rnd (of_int ((10 ^ 80) ^ 4)) = PosInf" by (rule rnd_overflow) simp
  then have i: "luminosity (10 ^ 80) = Inl OverflowError"
    unfolding luminosity_eq float_of_int_def by (simp add: bind_def)
  have e: "(1 / 2 ^ 300 :: rat) ^ 4 = 1 / 2 ^ 1200" by (simp add: power_divide)
  have "rnd (1 / 2 ^ 1200) = Finite 0" by (rule rnd_tiny) (simp_all add: power_int_minus_divide)
  then have "rnd ((1 / 2 ^ 300) ^ 4) = Finite 0" unfolding e .
  then have f: "luminosity_num (PyFloat (Finite (1 / 2 ^ 300))) = Inr (Finite 0)"
    unfolding luminosity_num.simps luminosity_float_eq by (simp add: rnd_zero)
  show ?thesis using i f is_double_tiny by simp
qed

section \<open>The text under the slider\<close>

text \<open>
  Claim C4, as the code has it. For the initial temperature \<open>5778\<close> the text block shows
  the mantissa \<open>3.85\<close>, the exponent \<open>26\<close> and the ratio to the Sun \<open>1.0\<close>.
\<close>

theorem solar_text_block:
  "render_text T_init = Inr (''3.85'', ''26'', ''1.0'')"
  unfolding T_init_def by (rule render_text_5778)

text \<open>
  The mantissa is not \<open>3.83\<close>: the luminosity at \<open>5778\<close> is about \<open>3.847e26\<close> W.
\<close>

theorem solar_text_block_counterexample:
  "render_text 5778 \<noteq> Inr (''3.83'', ''26'', ''1.0'')"
  unfolding render_text_5778 by simp

text \<open>
  Claim C5, as the code has it. For every float \<open>L\<close> with \<open>0 < L < 0.9995\<close> the formatted
  string is a mantissa, \<open>e-\<close> and at least two exponent digits, and the split returns that
  mantissa and the exponent string made of \<open>-\<close> and exactly those digits: sign and digits
  are the formatter's own.
\<close>

theorem negative_exponent_split:
  assumes "0 < x" "x < 9995 / 10000"
  shows "\<exists>base ds. format_e2 (Finite x) = base @ ''e-'' @ ds \<and>
           split_formatted (format_e2 (Finite x)) = Inr (base, ''-'' @ ds) \<and>
           2 \<le> length ds \<and> set ds \<subseteq> set ''0123456789''"
proof -
  define base where "base = mant_str (fst (sci_digits x))"
  define ds where "ds = exp_digits (snd (sci_digits x))"
  have neg: "snd (sci_digits x) < 0" using assms by (rule sci_digits_negative)
  have f: "format_e2 (Finite x) = base @ ''e-'' @ ds"
    using format_e2_shape(3)[OF assms(1)] neg unfolding base_def ds_def by simp
  have e1: "CHR ''e'' \<notin> set base" unfolding base_def using assms(1) by (rule format_e2_shape(1))
  have e2: "CHR ''e'' \<notin> set ds" unfolding ds_def using assms(1) by (rule format_e2_shape(2))
  have s: "split_formatted (format_e2 (Finite x)) = Inr (base, ''-'' @ ds)"
    unfolding f using e1 e2 by (rule split_formatted_sci(2))
  have "2 \<le> length ds" unfolding ds_def by (rule exp_digits_length)
  moreover have "set ds \<subseteq> set ''0123456789''" unfolding ds_def by (rule exp_digits_digits)
  ultimately show ?thesis using f s by blast
qed

theorem negative_exponent_split_witness:
  "(0::rat) < 3602879701896397 / 72057594037927936 \<and> (3602879701896397 / 72057594037927936 :: rat) < 9995 / 10000 \<and>
   (\<exists>base ds. format_e2 (Finite (3602879701896397 / 72057594037927936)) = base @ ''e-'' @ ds \<and>
           split_formatted (format_e2 (Finite (3602879701896397 / 72057594037927936))) = Inr (base, ''-'' @ ds) \<and>
           2 \<le> length ds \<and> set ds \<subseteq> set ''0123456789'')"
proof -
  have a: "(0::rat) < 3602879701896397 / 72057594037927936" by simp
  have b: "(3602879701896397 / 72057594037927936 :: rat) < 9995 / 10000" by simp
  show ?thesis using a b negative_exponent_split[OF a b] by blast
qed

text \<open>
  For \<open>L = 0.05\<close> the exponent string is \<open>-02\<close>, with the formatter's leading zero,
  and not \<open>-2\<close>.
\<close>

theorem negative_exponent_counterexample:
  "split_formatted (format_e2 (float_lit (5 / 100))) = Inr (''5.00'', ''-02'') \<and> ''-02'' \<noteq> ''-2''"
  unfolding lit_005 format_e2_005 split_formatted_005 by simp

text \<open>
  Claim C9. For every temperature in \<open>[3000, 12000]\<close> the string that \<open>{:.2e}\<close>
  produces for the luminosity contains \<open>e+\<close> or \<open>e-\<close>, so the branch that sets the
  exponent to \<open>0\<close> is not taken.
\<close>

theorem exponent_fallback_unreachable:
  assumes "T_min \<le> T" "T \<le> T_max"
  shows "\<exists>y. luminosity T = Inr (Finite y) \<and>
           (py_in ''e+'' (format_e2 (Finite y)) \<or> py_in ''e-'' (format_e2 (Finite y)))"
proof -
  have T1: "1 \<le> T" "T \<le> 10 ^ 74" using assms unfolding T_min_def T_max_def by simp_all
  obtain y where l: "luminosity T = Inr (Finite y)" and y0: "0 < y"
    using luminosity_rounding[OF T1] by blast
  define a where "a = mant_str (fst (sci_digits y))"
  define ds where "ds = exp_digits (snd (sci_digits y))"
  have "format_e2 (Finite y) = a @ ''e+'' @ ds \<or> format_e2 (Finite y) = a @ ''e-'' @ ds"
    using format_e2_shape(3)[OF y0] unfolding a_def ds_def by (simp split: if_splits)
  then have "py_in ''e+'' (format_e2 (Finite y)) \<or> py_in ''e-'' (format_e2 (Finite y))"
    using py_in_append[of "''e+''" a ds] py_in_append[of "''e-''" a ds] by auto
  then show ?thesis using l by blast
qed

theorem exponent_fallback_unreachable_witness:
  "T_min \<le> 5778 \<and> 5778 \<le> T_max \<and> (\<exists>y. luminosity 5778 = Inr (Finite y) \<and>
           (py_in ''e+'' (format_e2 (Finite y)) \<or> py_in ''e-'' (format_e2 (Finite y))))"
proof -
  have a: "T_min \<le> 5778" by (simp add: T_min_def)
  have b: "5778 \<le> T_max" by (simp add: T_max_def)
  show ?thesis using a b exponent_fallback_unreachable[OF a b] by blast
qed

section \<open>Colour mapping\<close>



section \<open>The selected temperature\<close>

text \<open>
  Claim C7. At every point of a session where the script reads the selected temperature,
  it is in \<open>[3000, 12000]\<close>; the first read, before any interaction, returns \<open>5778\<close>.
\<close>

theorem selected_temperature_in_range:
  assumes "reachable st"
  shows "(\<exists>T. read_T st = Inr T \<and> T_min \<le> T \<and> T \<le> T_max) \<and>
         read_T (init_session Map.empty) = Inr 5778"
proof -
  have first: "read_T (init_session Map.empty) = Inr 5778"
    using read_init[of Map.empty] by (simp add: T_init_def)
  have "\<exists>T. read_T st = Inr T \<and> T_min \<le> T \<and> T \<le> T_max"
    using assms
  proof (induction rule: reachable.induct)
    case start
    show ?case using first by (simp add: T_min_def T_max_def)
  next
    case (move st v)
    then show ?case by (simp add: read_slider_set slider_value_def)
  qed
  then show ?thesis using first by simp
qed

theorem selected_temperature_in_range_witness:
  "reachable (init_session (slider_set 3010 (init_session Map.empty))) \<and>
   (\<exists>T. read_T (init_session (slider_set 3010 (init_session Map.empty))) = Inr T
        \<and> T_min \<le> T \<and> T \<le> T_max) \<and>
   read_T (init_session Map.empty) = Inr 5778"
proof -
  have v: "slider_value 3010"
    by (simp add: slider_value_def T_min_def T_max_def slider_step_def)
  have r: "reachable (init_session (slider_set 3010 (init_session Map.empty)))"
    using reachable.start v by (rule reachable.move)
  show ?thesis using r selected_temperature_in_range[OF r] by simp
qed

text \<open>
  Claim C10. The values the slider can store are exactly \<open>3000 + 10 * k\<close> for
  \<open>k \<ge> 0\<close>, up to \<open>12000\<close>; \<open>5778\<close> is not of this form for any integer \<open>k\<close>, so no
  slider interaction stores the initial value again.
\<close>

theorem slider_never_selects_initial:
  "(slider_value v \<longleftrightarrow> (\<exists>k. 0 \<le> k \<and> v = T_min + slider_step * k \<and> v \<le> T_max)) \<and>
   T_min + slider_step * k \<noteq> T_init \<and>
   \<not> slider_value T_init \<and>
   (slider_value v \<longrightarrow> read_T (init_session (slider_set v st)) \<noteq> Inr T_init)"
proof -
  have grid: "slider_value v \<longleftrightarrow> (\<exists>k. 0 \<le> k \<and> v = T_min + slider_step * k \<and> v \<le> T_max)" for v
  proof
    assume s: "slider_value v"
    then have d: "(v - 3000) mod 10 = 0" and b: "3000 \<le> v" "v \<le> 12000"
      unfolding slider_value_def T_min_def T_max_def slider_step_def by simp_all
    have "v = 3000 + 10 * ((v - 3000) div 10)" using d by presburger
    moreover have "0 \<le> (v - 3000) div 10" using b by simp
    ultimately show "\<exists>k. 0 \<le> k \<and> v = T_min + slider_step * k \<and> v \<le> T_max"
      using b unfolding T_min_def T_max_def slider_step_def by blast
  next
    assume "\<exists>k. 0 \<le> k \<and> v = T_min + slider_step * k \<and> v \<le> T_max"
    then show "slider_value v"
      unfolding slider_value_def T_min_def T_max_def slider_step_def by auto
  qed
  have ne: "T_min + slider_step * k \<noteq> T_init" for k
    unfolding T_min_def slider_step_def T_init_def by presburger
  have ni: "\<not> slider_value T_init"
    by (simp add: slider_value_def T_min_def T_max_def slider_step_def T_init_def)
  have "read_T (init_session (slider_set v st)) \<noteq> Inr T_init" if "slider_value v"
    using that ni by (auto simp: read_slider_set)
  then show ?thesis using grid ne ni by blast
qed

theorem slider_never_selects_initial_witness:
  "slider_value 3010 \<and> (\<exists>k. 0 \<le> k \<and> 3010 = T_min + slider_step * k \<and> 3010 \<le> T_max) \<and>
   T_min + slider_step * 1 \<noteq> T_init \<and>
   \<not> slider_value T_init \<and>
   read_T (init_session (slider_set 3010 Map.empty)) \<noteq> Inr T_init"
proof -
  have v: "slider_value 3010"
    by (simp add: slider_value_def T_min_def T_max_def slider_step_def)
  show ?thesis using v slider_never_selects_initial[of 3010 1 Map.empty] by blast
qed

end
